theory Spec2Isabelle
  imports Main
begin

section \<open>Data model of client_side_index.go\<close>

text \<open>
  Instants of \<^verbatim>\<open>time.Time\<close> and lengths of \<^verbatim>\<open>time.Duration\<close> are integers on one
  time line (nanoseconds). Strings are byte lists, as Go strings are.
\<close>

text \<open>
  Modelled from the spec: the type \<^verbatim>\<open>TimeInterval\<close>, its constructor
  \<^verbatim>\<open>NewTimeInterval\<close> and its method \<^verbatim>\<open>Overlap\<close> are declared in a file of the
  repository that is not part of the sources at hand. The spec describes a time
  interval as a half-open range \<open>[start, end)\<close> with value equality on its two
  instants.
\<close>

record TimeInterval =
  Start :: int
  End :: int

definition NewTimeInterval :: "int \<Rightarrow> int \<Rightarrow> TimeInterval" where
  "NewTimeInterval start end' = \<lparr>Start = start, End = end'\<rparr>"

text \<open>
  Modelled from the spec: \<^verbatim>\<open>Overlap\<close> is missing from the sources. The spec's words
  are "overlap = non-empty intersection of two half-open ranges; touching-but-not-
  overlapping endpoints do not count as overlap": the later start lies before the
  earlier end.
\<close>

definition Overlap :: "TimeInterval \<Rightarrow> TimeInterval \<Rightarrow> bool" where
  "Overlap ti other = (max (Start ti) (Start other) < min (End ti) (End other))"

text \<open>
  The struct \<^verbatim>\<open>Series\<close>. The field \<^verbatim>\<open>Id\<close> is written \<open>Id'\<close> (HOL has a constant
  \<open>Id\<close>) and the field \<^verbatim>\<open>TimeInterval\<close> is written \<open>Interval\<close> (the record type
  above has that name). \<^verbatim>\<open>Tags\<close> is a \<^verbatim>\<open>map[string]struct{}\<close>, a set of strings.
\<close>

record Series =
  Table :: string
  Id' :: string
  Measurement :: string
  Tags :: "string set"
  Field :: string
  Interval :: TimeInterval

text \<open>
  Every \<^verbatim>\<open>log.Fatal\<close> of the file ends the process; the model returns the error.
  \<open>IndexOutOfRange\<close> is the run-time panic of a slice index outside the length.
\<close>

datatype error =
  NoData
  | InvalidSeriesId
  | DuplicateTag
  | BadTimeBucket
  | IndexOutOfRange

section \<open>Series.parse\<close>

text \<open>
  \<^verbatim>\<open>strings.Split(s, sep)\<close> of Go's library for a separator of one byte: the
  substrings between the occurrences of the separator, one more than there are
  occurrences. \<open>Split_from cur s sep\<close> scans \<open>s\<close> with \<open>cur\<close> the bytes read since
  the last separator.
\<close>

fun Split_from :: "string \<Rightarrow> string \<Rightarrow> char \<Rightarrow> string list" where
  "Split_from cur [] sep = [cur]"
| "Split_from cur (c # cs) sep =
     (if c = sep then cur # Split_from [] cs sep
      else Split_from (cur @ [c]) cs sep)"

definition Split :: "string \<Rightarrow> char \<Rightarrow> string list" where
  "Split s sep = Split_from [] s sep"

text \<open>
  The loop over \<^verbatim>\<open>measurementAndTags[1:]\<close>: a tag that is already in the map is
  fatal, any other tag is added.
\<close>

fun parse_tags :: "string list \<Rightarrow> string set \<Rightarrow> error + string set" where
  "parse_tags [] tags = Inr tags"
| "parse_tags (tag # rest) tags =
     (if tag \<in> tags then Inl DuplicateTag
      else parse_tags rest (insert tag tags))"

text \<open>
  \<^verbatim>\<open>parse\<close> updates the receiver field by field. The library call
  \<^verbatim>\<open>time.Parse("2006-01-02", .)\<close> is the parameter \<open>time_Parse\<close> (\<open>None\<close> is its
  error) and the constant \<^verbatim>\<open>BucketDuration\<close>, declared elsewhere in the repository,
  is the parameter \<open>BucketDuration\<close>.
\<close>

definition parse :: "(string \<Rightarrow> int option) \<Rightarrow> int \<Rightarrow> Series \<Rightarrow> error + Series" where
  "parse time_Parse BucketDuration s =
     (let sections = Split (Id' s) CHR ''#'' in
      if length sections \<noteq> 3 then Inl InvalidSeriesId
      else
        let measurementAndTags = Split (sections ! 0) CHR '','';
            s1 = s\<lparr>Measurement := hd measurementAndTags\<rparr>
        in case parse_tags (tl measurementAndTags) {} of
             Inl e \<Rightarrow> Inl e
           | Inr tags \<Rightarrow>
               let s2 = s1\<lparr>Tags := tags\<rparr>;
                   s3 = s2\<lparr>Field := sections ! 1\<rparr>
               in case time_Parse (sections ! 2) of
                    None \<Rightarrow> Inl BadTimeBucket
                  | Some start \<Rightarrow>
                      let end' = start + BucketDuration
                      in Inr (s3\<lparr>Interval := NewTimeInterval start end'\<rparr>))"

text \<open>
  \<^verbatim>\<open>NewSeries\<close> starts from a struct with only \<^verbatim>\<open>Table\<close> and \<^verbatim>\<open>Id\<close> set; the other
  fields hold Go's zero values.
\<close>

definition NewSeries :: "(string \<Rightarrow> int option) \<Rightarrow> int \<Rightarrow> string \<Rightarrow> string \<Rightarrow> error + Series" where
  "NewSeries time_Parse BucketDuration table id' =
     parse time_Parse BucketDuration
       \<lparr>Table = table, Id' = id', Measurement = [], Tags = {}, Field = [],
        Interval = \<lparr>Start = 0, End = 0\<rparr>\<rparr>"

section \<open>The matching predicates\<close>

text \<open>
  The four methods have a pointer receiver, so each could write to the row. The model
  returns the boolean together with the receiver as the method leaves it.
\<close>

definition MatchesTimeInterval :: "Series \<Rightarrow> TimeInterval \<Rightarrow> bool \<times> Series" where
  "MatchesTimeInterval s ti = (Overlap (Interval s) ti, s)"

definition MatchesMeasurementName :: "Series \<Rightarrow> string \<Rightarrow> bool \<times> Series" where
  "MatchesMeasurementName s m = (Measurement s = m, s)"

definition MatchesFieldName :: "Series \<Rightarrow> string \<Rightarrow> bool \<times> Series" where
  "MatchesFieldName s f = (Field s = f, s)"

text \<open>The inner loop of \<^verbatim>\<open>MatchesTagSets\<close>: the first tag the row has ends it.\<close>

fun tagset_match :: "string set \<Rightarrow> string list \<Rightarrow> bool" where
  "tagset_match tags [] = False"
| "tagset_match tags (tag # rest) =
     (if tag \<in> tags then True else tagset_match tags rest)"

text \<open>The outer loop: the first tag set without a match returns false.\<close>

fun tagsets_loop :: "string set \<Rightarrow> string list list \<Rightarrow> bool" where
  "tagsets_loop tags [] = True"
| "tagsets_loop tags (tagset # rest) =
     (if \<not> tagset_match tags tagset then False else tagsets_loop tags rest)"

definition MatchesTagSets :: "Series \<Rightarrow> string list list \<Rightarrow> bool \<times> Series" where
  "MatchesTagSets s tagsets = (tagsets_loop (Tags s) tagsets, s)"

section \<open>The store: backing arrays and addressable variables\<close>

text \<open>
  A \<^verbatim>\<open>[]Series\<close> is a slice header (array, offset, length, capacity) over a backing
  array in the store; two headers over one array alias. A \<^verbatim>\<open>*Series\<close> is the address
  of a Series variable in the store. Addresses are positions, so a new array or
  variable is placed at the end and differs from every address in use.
\<close>

type_synonym addr = nat

record heap =
  arrays :: "Series list list"
  cells :: "Series list"

record slice =
  arr :: addr
  off :: nat
  len :: nat
  cap :: nat

text \<open>Go's zero \<^verbatim>\<open>Series\<close>: empty strings, a nil map and the zero interval.\<close>

definition zero_Series :: Series where
  "zero_Series =
     \<lparr>Table = [], Id' = [], Measurement = [], Tags = {}, Field = [],
      Interval = \<lparr>Start = 0, End = 0\<rparr>\<rparr>"

text \<open>The run-time invariant of a slice header, and the elements it shows.\<close>

definition slice_ok :: "heap \<Rightarrow> slice \<Rightarrow> bool" where
  "slice_ok h sl =
     (arr sl < length (arrays h) \<and> len sl \<le> cap sl \<and>
      off sl + cap sl \<le> length (arrays h ! arr sl))"

definition elems :: "heap \<Rightarrow> slice \<Rightarrow> Series list" where
  "elems h sl = take (len sl) (drop (off sl) (arrays h ! arr sl))"

text \<open>\<^verbatim>\<open>make([]Series, n)\<close>: a new array of \<open>n\<close> zero values.\<close>

definition make_slice :: "heap \<Rightarrow> nat \<Rightarrow> slice \<times> heap" where
  "make_slice h n =
     (\<lparr>arr = length (arrays h), off = 0, len = n, cap = n\<rparr>,
      h\<lparr>arrays := arrays h @ [replicate n zero_Series]\<rparr>)"

text \<open>\<^verbatim>\<open>copy(dst, src)\<close>: the first \<open>min (len dst) (len src)\<close> elements are written.\<close>

definition copy_slice :: "heap \<Rightarrow> slice \<Rightarrow> slice \<Rightarrow> heap" where
  "copy_slice h dst src =
     (let n = min (len dst) (len src);
          xs = take n (elems h src);
          a = arrays h ! arr dst;
          a' = take (off dst) a @ xs @ drop (off dst + n) a
      in h\<lparr>arrays := (arrays h)[arr dst := a']\<rparr>)"

text \<open>A variable whose address is taken lives in the store.\<close>

definition alloc_cell :: "heap \<Rightarrow> addr \<times> heap" where
  "alloc_cell h = (length (cells h), h\<lparr>cells := cells h @ [zero_Series]\<rparr>)"

section \<open>NewClientSideIndex\<close>

record ClientSideIndex =
  timeIntervalMapping :: "TimeInterval \<rightharpoonup> addr set"
  tagMapping :: "string \<rightharpoonup> addr set"
  seriesCollection :: slice
  seriesIds :: "string list"

text \<open>Reading a bucket; a key that is absent reads as the nil map, which has no member.\<close>

definition bucket :: "('k \<rightharpoonup> addr set) \<Rightarrow> 'k \<Rightarrow> addr set" where
  "bucket m k = (case m k of None \<Rightarrow> {} | Some b \<Rightarrow> b)"

text \<open>
  The first loop, \<^verbatim>\<open>for _, s := range seriesCollection\<close>. The repository predates
  Go 1.22, where a range statement has one variable \<^verbatim>\<open>s\<close> for all its iterations:
  \<open>p\<close> is its address, every iteration stores the next element there, and \<^verbatim>\<open>&s\<close>
  is \<open>p\<close> each time.
\<close>

fun time_loop ::
  "addr \<Rightarrow> Series list \<Rightarrow> (TimeInterval \<rightharpoonup> addr set) \<Rightarrow> heap
     \<Rightarrow> (TimeInterval \<rightharpoonup> addr set) \<times> heap" where
  "time_loop p [] bm h = (bm, h)"
| "time_loop p (x # xs) bm h =
     (let h1 = h\<lparr>cells := (cells h)[p := x]\<rparr>;
          s = cells h1 ! p;
          bm1 = (if bm (Interval s) = None then bm(Interval s \<mapsto> {}) else bm);
          bm2 = (if p \<notin> bucket bm1 (Interval s)
                 then bm1(Interval s \<mapsto> insert p (bucket bm1 (Interval s)))
                 else bm1)
      in time_loop p xs bm2 h1)"

text \<open>
  The inner loop of the second loop visits the keys of \<^verbatim>\<open>s.Tags\<close> in an order Go
  leaves open; each key gets \<^verbatim>\<open>&s\<close> added to its bucket, which does not depend on
  the order.
\<close>

definition tag_inner :: "addr \<Rightarrow> string set \<Rightarrow> (string \<rightharpoonup> addr set) \<Rightarrow> (string \<rightharpoonup> addr set)" where
  "tag_inner p tags tm =
     (\<lambda>tag. if tag \<in> tags then Some (insert p (bucket tm tag)) else tm tag)"

fun tag_loop ::
  "addr \<Rightarrow> Series list \<Rightarrow> (string \<rightharpoonup> addr set) \<Rightarrow> heap
     \<Rightarrow> (string \<rightharpoonup> addr set) \<times> heap" where
  "tag_loop p [] tm h = (tm, h)"
| "tag_loop p (x # xs) tm h =
     (let h1 = h\<lparr>cells := (cells h)[p := x]\<rparr>;
          s = cells h1 ! p
      in tag_loop p xs (tag_inner p (Tags s) tm) h1)"

text \<open>The third loop appends the id of each element.\<close>

fun ids_loop :: "Series list \<Rightarrow> string list \<Rightarrow> string list" where
  "ids_loop [] ids = ids"
| "ids_loop (s # rest) ids = ids_loop rest (ids @ [Id' s])"

text \<open>
  The body of the function does not write to a backing array, so the elements the
  three range loops read are those of the slice on entry. The index keeps the
  caller's slice header.
\<close>

definition NewClientSideIndex :: "heap \<Rightarrow> slice \<Rightarrow> error + ClientSideIndex \<times> heap" where
  "NewClientSideIndex h sc =
     (if len sc = 0 then Inl NoData
      else
        let xs = elems h sc;
            (p1, h1) = alloc_cell h;
            (bm, h2) = time_loop p1 xs Map.empty h1;
            (p2, h3) = alloc_cell h2;
            (tm, h4) = tag_loop p2 xs Map.empty h3;
            ids = ids_loop xs []
        in Inr (\<lparr>timeIntervalMapping = bm, tagMapping = tm,
                  seriesCollection = sc, seriesIds = ids\<rparr>, h4))"

section \<open>CopyOfSeriesCollection and what a caller does with its result\<close>

definition CopyOfSeriesCollection :: "heap \<Rightarrow> ClientSideIndex \<Rightarrow> slice \<times> heap" where
  "CopyOfSeriesCollection h csi =
     (let (ret, h1) = make_slice h (len (seriesCollection csi));
          h2 = copy_slice h1 ret (seriesCollection csi)
      in (ret, h2))"

text \<open>
  The statements a caller has for changing a slice: \<^verbatim>\<open>ret[i] = v\<close>,
  \<^verbatim>\<open>ret = append(ret, v)\<close> and \<^verbatim>\<open>ret[i], ret[j] = ret[j], ret[i]\<close>. An index outside
  the length panics. \<^verbatim>\<open>append\<close> writes in place while the capacity allows it and
  moves to a new, larger array otherwise; the run time picks the new capacity, here
  \<open>grow\<close> of the old one and at least one more than the length.
\<close>

datatype slice_op =
  Store nat Series
  | Append Series
  | Swap nat nat

definition store_elem :: "heap \<Rightarrow> slice \<Rightarrow> nat \<Rightarrow> Series \<Rightarrow> heap" where
  "store_elem h sl i v =
     h\<lparr>arrays := (arrays h)[arr sl := (arrays h ! arr sl)[off sl + i := v]]\<rparr>"

fun apply_op :: "(nat \<Rightarrow> nat) \<Rightarrow> slice_op \<Rightarrow> slice \<times> heap \<Rightarrow> error + slice \<times> heap" where
  "apply_op grow (Store i v) (sl, h) =
     (if i < len sl then Inr (sl, store_elem h sl i v) else Inl IndexOutOfRange)"
| "apply_op grow (Append v) (sl, h) =
     (if len sl < cap sl
      then Inr (sl\<lparr>len := len sl + 1\<rparr>, store_elem h sl (len sl) v)
      else
        let newcap = max (len sl + 1) (grow (cap sl));
            a = elems h sl @ [v] @ replicate (newcap - (len sl + 1)) zero_Series
        in Inr (\<lparr>arr = length (arrays h), off = 0, len = len sl + 1, cap = newcap\<rparr>,
                h\<lparr>arrays := arrays h @ [a]\<rparr>))"
| "apply_op grow (Swap i j) (sl, h) =
     (if i < len sl \<and> j < len sl
      then let vi = elems h sl ! i; vj = elems h sl ! j
           in Inr (sl, store_elem (store_elem h sl i vj) sl j vi)
      else Inl IndexOutOfRange)"

fun apply_ops :: "(nat \<Rightarrow> nat) \<Rightarrow> slice_op list \<Rightarrow> slice \<times> heap \<Rightarrow> error + slice \<times> heap" where
  "apply_ops grow [] st = Inr st"
| "apply_ops grow (x # xs) st =
     (case apply_op grow x st of Inl e \<Rightarrow> Inl e | Inr st' \<Rightarrow> apply_ops grow xs st')"

section \<open>The library's date parser at the layout of the file\<close>

text \<open>
  \<^verbatim>\<open>time.Parse("2006-01-02", v)\<close> of Go's library, for instantiating \<open>time_Parse\<close>:
  four digits, a dash, two digits, a dash, two digits and nothing more; the month
  between 1 and 12 and the day within the month. The result is midnight UTC of that
  day, in nanoseconds since 1970-01-01.
\<close>

definition isDigit :: "char \<Rightarrow> bool" where
  "isDigit c = (c \<in> set ''0123456789'')"

definition digit :: "char \<Rightarrow> int" where
  "digit c = int (of_char c) - 48"

definition isLeap :: "int \<Rightarrow> bool" where
  "isLeap year = (year mod 4 = 0 \<and> (year mod 100 \<noteq> 0 \<or> year mod 400 = 0))"

definition daysIn :: "int \<Rightarrow> int \<Rightarrow> int" where
  "daysIn month year =
     (if month = 2 then (if isLeap year then 29 else 28)
      else if month \<in> {4, 6, 9, 11} then 30 else 31)"

definition days_from_civil :: "int \<Rightarrow> int \<Rightarrow> int \<Rightarrow> int" where
  "days_from_civil year month day =
     (let y = (if month \<le> 2 then year - 1 else year);
          era = y div 400;
          yoe = y - era * 400;
          mp = (if month > 2 then month - 3 else month + 9);
          doy = (153 * mp + 2) div 5 + day - 1;
          doe = yoe * 365 + yoe div 4 - yoe div 100 + doy
      in era * 146097 + doe - 719468)"

definition time_Parse_date :: "string \<Rightarrow> int option" where
  "time_Parse_date v =
     (if length v = 10 \<and> v ! 4 = CHR ''-'' \<and> v ! 7 = CHR ''-'' \<and>
         list_all (\<lambda>i. isDigit (v ! i)) [0, 1, 2, 3, 5, 6, 8, 9]
      then
        let year = 1000 * digit (v ! 0) + 100 * digit (v ! 1) + 10 * digit (v ! 2) + digit (v ! 3);
            month = 10 * digit (v ! 5) + digit (v ! 6);
            day = 10 * digit (v ! 8) + digit (v ! 9)
        in if month < 1 \<or> 12 < month then None
           else if day < 1 \<or> daysIn month year < day then None
           else Some (days_from_civil year month day * 86400000000000)
      else None)"

text \<open>Twenty-four hours, a value for \<open>BucketDuration\<close>.\<close>

definition one_day :: int where
  "one_day = 86400000000000"

section \<open>Auxiliary notions for the proofs\<close>

text \<open>
  \<open>apart A (sl, h)\<close>: the slice \<open>sl\<close> lives in an array made after the arrays \<open>A\<close>,
  and those arrays are in the store \<open>h\<close> as they were.
\<close>

definition apart :: "Series list list \<Rightarrow> slice \<times> heap \<Rightarrow> bool" where
  "apart A st = (case st of (sl, h) \<Rightarrow>
     length A \<le> arr sl \<and> slice_ok h sl \<and> take (length A) (arrays h) = A)"

text \<open>Two rows, as \<^verbatim>\<open>NewSeries\<close> returns them for the ids they carry.\<close>

definition row_cpu :: Series where
  "row_cpu =
     \<lparr>Table = ''series_bigint'', Id' = ''cpu,hostname=host_0#usage_idle#2016-01-01'',
      Measurement = ''cpu'', Tags = {''hostname=host_0''}, Field = ''usage_idle'',
      Interval = \<lparr>Start = 1451606400000000000, End = 1451692800000000000\<rparr>\<rparr>"

definition row_mem :: Series where
  "row_mem =
     \<lparr>Table = ''series_bigint'', Id' = ''mem,hostname=host_1#available#2016-01-02'',
      Measurement = ''mem'', Tags = {''hostname=host_1''}, Field = ''available'',
      Interval = \<lparr>Start = 1451692800000000000, End = 1451779200000000000\<rparr>\<rparr>"

section \<open>Properties of the matching predicates\<close>

lemma tagset_match_iff: "tagset_match tags tagset \<longleftrightarrow> (\<exists>tag \<in> set tagset. tag \<in> tags)"
  by (induction tagset) auto

lemma tagsets_loop_iff:
  "tagsets_loop tags tagsets \<longleftrightarrow> (\<forall>tagset \<in> set tagsets. \<exists>tag \<in> set tagset. tag \<in> tags)"
  by (induction tagsets) (auto simp: tagset_match_iff)

text \<open>
  Claim C5. \<^verbatim>\<open>MatchesTagSets\<close> returns true exactly when the row has, for every tag
  set of the argument, at least one of its tags: a conjunction over the tag sets of a
  disjunction within each. With no tag set at all it returns true for every row.
\<close>

theorem MatchesTagSets_conjunction_of_disjunctions:
  "(fst (MatchesTagSets s tagsets) \<longleftrightarrow>
      (\<forall>tagset \<in> set tagsets. \<exists>tag \<in> set tagset. tag \<in> Tags s))
   \<and> fst (MatchesTagSets s [])"
  by (simp add: MatchesTagSets_def tagsets_loop_iff)

theorem MatchesTagSets_conjunction_of_disjunctions_witness:
  "fst (MatchesTagSets
      \<lparr>Table = ''series_bigint'', Id' = ''cpu,hostname=host_0,region=eu-central-1#usage_idle#2016-01-01'',
       Measurement = ''cpu'', Tags = {''hostname=host_0'', ''region=eu-central-1''},
       Field = ''usage_idle'', Interval = \<lparr>Start = 0, End = 10\<rparr>\<rparr>
      [[''hostname=host_0'', ''hostname=host_1''], [''region=eu-central-1'']])
   \<and> \<not> fst (MatchesTagSets
      \<lparr>Table = ''series_bigint'', Id' = ''cpu,hostname=host_2,region=eu-central-1#usage_idle#2016-01-01'',
       Measurement = ''cpu'', Tags = {''hostname=host_2'', ''region=eu-central-1''},
       Field = ''usage_idle'', Interval = \<lparr>Start = 0, End = 10\<rparr>\<rparr>
      [[''hostname=host_0'', ''hostname=host_1''], [''region=eu-central-1'']])"
  using MatchesTagSets_conjunction_of_disjunctions
    [of "\<lparr>Table = ''series_bigint'', Id' = ''cpu,hostname=host_0,region=eu-central-1#usage_idle#2016-01-01'',
       Measurement = ''cpu'', Tags = {''hostname=host_0'', ''region=eu-central-1''},
       Field = ''usage_idle'', Interval = \<lparr>Start = 0, End = 10\<rparr>\<rparr>"
      "[[''hostname=host_0'', ''hostname=host_1''], [''region=eu-central-1'']]"]
    MatchesTagSets_conjunction_of_disjunctions
    [of "\<lparr>Table = ''series_bigint'', Id' = ''cpu,hostname=host_2,region=eu-central-1#usage_idle#2016-01-01'',
       Measurement = ''cpu'', Tags = {''hostname=host_2'', ''region=eu-central-1''},
       Field = ''usage_idle'', Interval = \<lparr>Start = 0, End = 10\<rparr>\<rparr>"
      "[[''hostname=host_0'', ''hostname=host_1''], [''region=eu-central-1'']]"]
  by simp

text \<open>
  Claim C10. When one of the tag sets is empty, \<^verbatim>\<open>MatchesTagSets\<close> returns false
  whatever tags the row has: the inner loop has nothing to find.
\<close>

theorem MatchesTagSets_empty_group:
  "[] \<in> set tagsets \<Longrightarrow> \<not> fst (MatchesTagSets s tagsets)"
  by (simp add: MatchesTagSets_def tagsets_loop_iff) force

theorem MatchesTagSets_empty_group_witness:
  "[] \<in> set [[''hostname=host_0''], []] \<and>
   \<not> fst (MatchesTagSets
      \<lparr>Table = ''series_bigint'', Id' = ''cpu,hostname=host_0#usage_idle#2016-01-01'',
       Measurement = ''cpu'', Tags = {''hostname=host_0''},
       Field = ''usage_idle'', Interval = \<lparr>Start = 0, End = 10\<rparr>\<rparr>
      [[''hostname=host_0''], []])"
proof -
  have h: "[] \<in> set [[''hostname=host_0''], ([]::string list)]" by simp
  show ?thesis using h MatchesTagSets_empty_group [OF h] by blast
qed

text \<open>
  Claim C9. None of the four predicates writes to the row: after the call the
  receiver, and so each of its six fields, is what it was before, and the only thing
  the call gives back is the boolean.
\<close>

theorem predicates_leave_row_unchanged:
  "snd (MatchesTimeInterval s ti) = s \<and> snd (MatchesMeasurementName s m) = s \<and>
   snd (MatchesFieldName s f) = s \<and> snd (MatchesTagSets s tagsets) = s"
  by (simp add: MatchesTimeInterval_def MatchesMeasurementName_def MatchesFieldName_def
      MatchesTagSets_def)

theorem predicates_leave_row_unchanged_witness:
  "Tags (snd (MatchesTagSets
      \<lparr>Table = ''series_bigint'', Id' = ''cpu,hostname=host_0#usage_idle#2016-01-01'',
       Measurement = ''cpu'', Tags = {''hostname=host_0''},
       Field = ''usage_idle'', Interval = \<lparr>Start = 0, End = 10\<rparr>\<rparr>
      [[''hostname=host_1'']])) = {''hostname=host_0''}"
  using predicates_leave_row_unchanged
    [of "\<lparr>Table = ''series_bigint'', Id' = ''cpu,hostname=host_0#usage_idle#2016-01-01'',
       Measurement = ''cpu'', Tags = {''hostname=host_0''},
       Field = ''usage_idle'', Interval = \<lparr>Start = 0, End = 10\<rparr>\<rparr>"
      _ _ _ "[[''hostname=host_1'']]"]
  by simp

section \<open>Overlap of half-open intervals\<close>

lemma Overlap_iff_common_instant:
  "Overlap a b \<longleftrightarrow> (\<exists>t. Start a \<le> t \<and> t < End a \<and> Start b \<le> t \<and> t < End b)"
proof
  assume "Overlap a b"
  then have "Start a \<le> max (Start a) (Start b) \<and> max (Start a) (Start b) < End a \<and>
    Start b \<le> max (Start a) (Start b) \<and> max (Start a) (Start b) < End b"
    by (simp add: Overlap_def)
  then show "\<exists>t. Start a \<le> t \<and> t < End a \<and> Start b \<le> t \<and> t < End b" by blast
next
  assume "\<exists>t. Start a \<le> t \<and> t < End a \<and> Start b \<le> t \<and> t < End b"
  then show "Overlap a b" by (auto simp: Overlap_def)
qed

text \<open>
  Claim C4. \<^verbatim>\<open>MatchesTimeInterval\<close> returns true exactly when some instant lies in
  both the row's half-open interval and the query's; when the end of one is the start
  of the other they share no instant and it returns false.
\<close>

theorem MatchesTimeInterval_iff_shared_instant:
  "(fst (MatchesTimeInterval s q) \<longleftrightarrow>
      (\<exists>t. Start (Interval s) \<le> t \<and> t < End (Interval s) \<and> Start q \<le> t \<and> t < End q))
   \<and> (End (Interval s) = Start q \<or> End q = Start (Interval s) \<longrightarrow>
        \<not> fst (MatchesTimeInterval s q))"
  by (auto simp: MatchesTimeInterval_def Overlap_iff_common_instant)

theorem MatchesTimeInterval_iff_shared_instant_witness:
  "\<not> fst (MatchesTimeInterval
      \<lparr>Table = ''series_bigint'', Id' = ''cpu#usage_idle#2016-01-01'',
       Measurement = ''cpu'', Tags = {}, Field = ''usage_idle'',
       Interval = \<lparr>Start = 1451606400000000000, End = 1451692800000000000\<rparr>\<rparr>
      \<lparr>Start = 1451692800000000000, End = 1451779200000000000\<rparr>)
   \<and> fst (MatchesTimeInterval
      \<lparr>Table = ''series_bigint'', Id' = ''cpu#usage_idle#2016-01-01'',
       Measurement = ''cpu'', Tags = {}, Field = ''usage_idle'',
       Interval = \<lparr>Start = 1451606400000000000, End = 1451692800000000000\<rparr>\<rparr>
      \<lparr>Start = 1451692799999999999, End = 1451779200000000000\<rparr>)"
proof -
  let ?s = "\<lparr>Table = ''series_bigint'', Id' = ''cpu#usage_idle#2016-01-01'',
       Measurement = ''cpu'', Tags = {}, Field = ''usage_idle'',
       Interval = \<lparr>Start = 1451606400000000000, End = 1451692800000000000\<rparr>\<rparr>"
  have a: "\<not> fst (MatchesTimeInterval ?s \<lparr>Start = 1451692800000000000, End = 1451779200000000000\<rparr>)"
    using MatchesTimeInterval_iff_shared_instant
      [of ?s "\<lparr>Start = 1451692800000000000, End = 1451779200000000000\<rparr>"]
    by simp
  have "\<exists>t::int. 1451606400000000000 \<le> t \<and> t < 1451692800000000000 \<and>
      1451692799999999999 \<le> t \<and> t < 1451779200000000000"
    by (rule exI [of _ 1451692799999999999]) simp
  then have b: "fst (MatchesTimeInterval ?s \<lparr>Start = 1451692799999999999, End = 1451779200000000000\<rparr>)"
    using MatchesTimeInterval_iff_shared_instant
      [of ?s "\<lparr>Start = 1451692799999999999, End = 1451779200000000000\<rparr>"]
    by simp
  show ?thesis using a b by blast
qed

section \<open>Building the index\<close>

text \<open>
  Claim C6. \<^verbatim>\<open>NewClientSideIndex\<close> is fatal on an empty series collection, and on
  every collection with at least one element it returns an index.
\<close>

theorem NewClientSideIndex_fails_iff_empty:
  "(len sc = 0 \<longrightarrow> NewClientSideIndex h sc = Inl NoData) \<and>
   (len sc \<noteq> 0 \<longrightarrow> (\<exists>csi h'. NewClientSideIndex h sc = Inr (csi, h')))"
  by (simp add: NewClientSideIndex_def Let_def split: prod.splits)

theorem NewClientSideIndex_fails_iff_empty_witness:
  "NewClientSideIndex \<lparr>arrays = [[]], cells = []\<rparr> \<lparr>arr = 0, off = 0, len = 0, cap = 0\<rparr>
     = Inl NoData
   \<and> (\<exists>csi h'. NewClientSideIndex \<lparr>arrays = [[zero_Series]], cells = []\<rparr>
         \<lparr>arr = 0, off = 0, len = 1, cap = 1\<rparr> = Inr (csi, h'))"
  using NewClientSideIndex_fails_iff_empty
      [of "\<lparr>arr = 0, off = 0, len = 0, cap = 0\<rparr>" "\<lparr>arrays = [[]], cells = []\<rparr>"]
    NewClientSideIndex_fails_iff_empty
      [of "\<lparr>arr = 0, off = 0, len = 1, cap = 1\<rparr>" "\<lparr>arrays = [[zero_Series]], cells = []\<rparr>"]
  by simp

lemma NewClientSideIndex_total:
  "len sc \<noteq> 0 \<Longrightarrow> \<exists>csi h'. NewClientSideIndex h sc = Inr (csi, h')"
  by (simp add: NewClientSideIndex_def Let_def split: prod.splits)

lemma time_loop_arrays: "arrays (snd (time_loop p xs bm h)) = arrays h"
  by (induction xs arbitrary: bm h) (simp_all add: Let_def)

lemma tag_loop_arrays: "arrays (snd (tag_loop p xs tm h)) = arrays h"
  by (induction xs arbitrary: tm h) (simp_all add: Let_def)

lemma ids_loop_map: "ids_loop xs ids = ids @ map Id' xs"
  by (induction xs arbitrary: ids) simp_all

lemma length_elems: "slice_ok h sl \<Longrightarrow> length (elems h sl) = len sl"
  by (auto simp: elems_def slice_ok_def)

lemma NewClientSideIndex_Inr:
  assumes "NewClientSideIndex h sc = Inr (csi, h')"
  shows "seriesCollection csi = sc" "seriesIds csi = map Id' (elems h sc)" "arrays h' = arrays h"
proof -
  from assms have ne: "len sc \<noteq> 0"
    by (auto simp: NewClientSideIndex_def split: if_splits)
  obtain p1 h1 where a1: "alloc_cell h = (p1, h1)" by (cases "alloc_cell h")
  obtain bm h2 where l1: "time_loop p1 (elems h sc) Map.empty h1 = (bm, h2)"
    by (cases "time_loop p1 (elems h sc) Map.empty h1")
  obtain p2 h3 where a2: "alloc_cell h2 = (p2, h3)" by (cases "alloc_cell h2")
  obtain tm h4 where l2: "tag_loop p2 (elems h sc) Map.empty h3 = (tm, h4)"
    by (cases "tag_loop p2 (elems h sc) Map.empty h3")
  from assms ne a1 l1 a2 l2
  have csi: "csi = \<lparr>timeIntervalMapping = bm, tagMapping = tm, seriesCollection = sc,
      seriesIds = ids_loop (elems h sc) []\<rparr>" and h': "h' = h4"
    by (simp_all add: NewClientSideIndex_def)
  show "seriesCollection csi = sc" using csi by simp
  show "seriesIds csi = map Id' (elems h sc)" using csi by (simp add: ids_loop_map)
  have "arrays h1 = arrays h" using a1 by (auto simp: alloc_cell_def)
  moreover have "arrays h2 = arrays h1"
    using time_loop_arrays [of p1 "elems h sc" Map.empty h1] l1 by simp
  moreover have "arrays h3 = arrays h2" using a2 by (auto simp: alloc_cell_def)
  moreover have "arrays h4 = arrays h3"
    using tag_loop_arrays [of p2 "elems h sc" Map.empty h3] l2 by simp
  ultimately show "arrays h' = arrays h" using h' by simp
qed

text \<open>
  Claim C8. For a series collection that is not empty the index is built; its
  \<^verbatim>\<open>seriesCollection\<close> shows the elements of the input in their order, and
  \<^verbatim>\<open>seriesIds\<close> has the same length and holds, at each position, the \<^verbatim>\<open>Id\<close> of the
  series at that position.
\<close>

theorem NewClientSideIndex_rows_and_ids:
  assumes "len sc \<noteq> 0"
  shows "\<exists>csi h'. NewClientSideIndex h sc = Inr (csi, h') \<and>
           elems h' (seriesCollection csi) = elems h sc \<and>
           length (seriesIds csi) = length (elems h' (seriesCollection csi)) \<and>
           (\<forall>i < length (seriesIds csi).
              seriesIds csi ! i = Id' (elems h' (seriesCollection csi) ! i))"
proof -
  obtain csi h' where r: "NewClientSideIndex h sc = Inr (csi, h')"
    using NewClientSideIndex_total [OF assms] by blast
  have e: "elems h' (seriesCollection csi) = elems h sc"
    using NewClientSideIndex_Inr [OF r] by (simp add: elems_def)
  have i: "seriesIds csi = map Id' (elems h sc)"
    using NewClientSideIndex_Inr [OF r] by simp
  show ?thesis using r e i by simp
qed

theorem NewClientSideIndex_rows_and_ids_witness:
  "len \<lparr>arr = 0, off = 0, len = 2, cap = 2\<rparr> \<noteq> 0 \<and>
   (\<exists>csi h'. NewClientSideIndex \<lparr>arrays = [[row_cpu, row_mem]], cells = []\<rparr>
        \<lparr>arr = 0, off = 0, len = 2, cap = 2\<rparr> = Inr (csi, h') \<and>
      elems h' (seriesCollection csi) = [row_cpu, row_mem] \<and>
      length (seriesIds csi) = 2 \<and>
      seriesIds csi ! 0 = ''cpu,hostname=host_0#usage_idle#2016-01-01'' \<and>
      seriesIds csi ! 1 = ''mem,hostname=host_1#available#2016-01-02'')"
proof -
  let ?h = "\<lparr>arrays = [[row_cpu, row_mem]], cells = []\<rparr>"
  let ?sc = "\<lparr>arr = 0, off = 0, len = 2, cap = 2\<rparr>"
  have ne: "len ?sc \<noteq> 0" by simp
  have e: "elems ?h ?sc = [row_cpu, row_mem]" by (simp add: elems_def)
  obtain csi h' where r: "NewClientSideIndex ?h ?sc = Inr (csi, h')"
    and c: "elems h' (seriesCollection csi) = elems ?h ?sc"
    and l: "length (seriesIds csi) = length (elems h' (seriesCollection csi))"
    and i: "\<forall>i < length (seriesIds csi).
              seriesIds csi ! i = Id' (elems h' (seriesCollection csi) ! i)"
    using NewClientSideIndex_rows_and_ids [OF ne, of ?h] by blast
  have l2: "length (seriesIds csi) = 2" using l c e by simp
  have "seriesIds csi ! 0 = Id' ([row_cpu, row_mem] ! 0)"
    and "seriesIds csi ! 1 = Id' ([row_cpu, row_mem] ! 1)"
    using i l2 c e by simp_all
  then have "seriesIds csi ! 0 = ''cpu,hostname=host_0#usage_idle#2016-01-01''"
    and "seriesIds csi ! 1 = ''mem,hostname=host_1#available#2016-01-02''"
    by (simp_all add: row_cpu_def row_mem_def)
  then show ?thesis using ne r c e l2 by auto
qed

section \<open>What the buckets of the index hold\<close>

text \<open>
  One pass of the first loop leaves the address of the loop variable in the bucket of
  the element's interval, whether the bucket existed or not.
\<close>

lemma bucket_step:
  "(let bm1 = (if bm k = None then bm(k \<mapsto> {}) else bm)
    in if p \<notin> bucket bm1 k then bm1(k \<mapsto> insert p (bucket bm1 k)) else bm1)
   = bm(k \<mapsto> insert p (bucket bm k))"
proof (cases "bm k")
  case None
  then show ?thesis by (simp add: bucket_def)
next
  case (Some b)
  then show ?thesis by (auto simp: bucket_def insert_absorb map_upd_triv)
qed

lemma time_loop_result:
  "p < length (cells h) \<Longrightarrow>
   time_loop p xs bm h =
     ((\<lambda>k. if k \<in> Interval ` set xs then Some (insert p (bucket bm k)) else bm k),
      h\<lparr>cells := (if xs = [] then cells h else (cells h)[p := last xs])\<rparr>)"
proof (induction xs arbitrary: bm h)
  case Nil
  then show ?case by simp
next
  case (Cons x xs)
  let ?h1 = "h\<lparr>cells := (cells h)[p := x]\<rparr>"
  let ?bm2 = "bm(Interval x \<mapsto> insert p (bucket bm (Interval x)))"
  have p1: "p < length (cells ?h1)" using Cons.prems by simp
  have "time_loop p (x # xs) bm h =
      time_loop p xs
        (let bm1 = (if bm (Interval x) = None then bm(Interval x \<mapsto> {}) else bm)
         in if p \<notin> bucket bm1 (Interval x)
            then bm1(Interval x \<mapsto> insert p (bucket bm1 (Interval x))) else bm1) ?h1"
    using Cons.prems by (simp add: Let_def)
  then have step: "time_loop p (x # xs) bm h = time_loop p xs ?bm2 ?h1"
    by (simp only: bucket_step)
  have bk: "\<And>k. bucket ?bm2 k = (if k = Interval x then insert p (bucket bm k) else bucket bm k)"
    by (simp add: bucket_def)
  show ?case
    unfolding step Cons.IH [OF p1]
    by (auto simp: bk fun_eq_iff)
qed

lemma tag_loop_result:
  "p < length (cells h) \<Longrightarrow>
   tag_loop p xs tm h =
     ((\<lambda>tag. if \<exists>x \<in> set xs. tag \<in> Tags x then Some (insert p (bucket tm tag)) else tm tag),
      h\<lparr>cells := (if xs = [] then cells h else (cells h)[p := last xs])\<rparr>)"
proof (induction xs arbitrary: tm h)
  case Nil
  then show ?case by simp
next
  case (Cons x xs)
  let ?h1 = "h\<lparr>cells := (cells h)[p := x]\<rparr>"
  let ?tm1 = "tag_inner p (Tags x) tm"
  have p1: "p < length (cells ?h1)" using Cons.prems by simp
  have step: "tag_loop p (x # xs) tm h = tag_loop p xs ?tm1 ?h1"
    using Cons.prems by (simp add: Let_def)
  have bk: "\<And>tag. bucket ?tm1 tag = (if tag \<in> Tags x then insert p (bucket tm tag) else bucket tm tag)"
    by (simp add: bucket_def tag_inner_def)
  have ti: "\<And>tag. ?tm1 tag = (if tag \<in> Tags x then Some (insert p (bucket tm tag)) else tm tag)"
    by (simp add: tag_inner_def)
  show ?case
    unfolding step Cons.IH [OF p1]
    by (auto simp: bk ti fun_eq_iff)
qed

lemma NewClientSideIndex_buckets:
  assumes "len sc \<noteq> 0" "elems h sc \<noteq> []"
  shows "NewClientSideIndex h sc =
    Inr (\<lparr>timeIntervalMapping =
             (\<lambda>k. if k \<in> Interval ` set (elems h sc) then Some {length (cells h)} else None),
           tagMapping =
             (\<lambda>tag. if \<exists>x \<in> set (elems h sc). tag \<in> Tags x
                     then Some {Suc (length (cells h))} else None),
           seriesCollection = sc,
           seriesIds = map Id' (elems h sc)\<rparr>,
         h\<lparr>cells := cells h @ [last (elems h sc), last (elems h sc)]\<rparr>)"
  using assms
  by (simp add: NewClientSideIndex_def Let_def alloc_cell_def time_loop_result tag_loop_result
      bucket_def ids_loop_map list_update_append cong: if_cong)

lemma rows_parsed:
  "NewSeries time_Parse_date one_day ''series_bigint''
     ''cpu,hostname=host_0#usage_idle#2016-01-01'' = Inr row_cpu"
  "NewSeries time_Parse_date one_day ''series_bigint''
     ''mem,hostname=host_1#available#2016-01-02'' = Inr row_mem"
  by (simp_all add: NewSeries_def parse_def Split_def time_Parse_date_def isDigit_def digit_def
      daysIn_def isLeap_def days_from_civil_def one_day_def NewTimeInterval_def row_cpu_def
      row_mem_def)

text \<open>
  Claim C1 says that the set under each key of \<^verbatim>\<open>timeIntervalMapping\<close> and
  \<^verbatim>\<open>tagMapping\<close> names the rows whose interval or tag is that key, and no other row.
  The code does not do that: both range loops store \<^verbatim>\<open>&s\<close>, the address of the loop
  variable, so every bucket holds that one address, and after the loop the variable
  holds the last series. For the two rows of the spec's end-to-end example the bucket
  of 2016-01-01 and the bucket of \<^verbatim>\<open>hostname=host_0\<close> name the row of 2016-01-02
  with the tag \<^verbatim>\<open>hostname=host_1\<close>.
\<close>

theorem NewClientSideIndex_buckets_name_last_row:
  "\<exists>csi h'.
     NewClientSideIndex \<lparr>arrays = [[row_cpu, row_mem]], cells = []\<rparr>
       \<lparr>arr = 0, off = 0, len = 2, cap = 2\<rparr> = Inr (csi, h')
     \<and> timeIntervalMapping csi (Interval row_cpu) = Some {0}
     \<and> timeIntervalMapping csi (Interval row_mem) = Some {0}
     \<and> cells h' ! 0 = row_mem
     \<and> Interval row_mem \<noteq> Interval row_cpu
     \<and> tagMapping csi ''hostname=host_0'' = Some {1}
     \<and> cells h' ! 1 = row_mem
     \<and> ''hostname=host_0'' \<notin> Tags row_mem"
  by (simp add: NewClientSideIndex_def elems_def alloc_cell_def Let_def bucket_def
      tag_inner_def row_cpu_def row_mem_def)

section \<open>The copy of the series collection\<close>

lemma CopyOfSeriesCollection_result:
  assumes "slice_ok h (seriesCollection csi)"
  shows "CopyOfSeriesCollection h csi =
     (\<lparr>arr = length (arrays h), off = 0, len = len (seriesCollection csi),
        cap = len (seriesCollection csi)\<rparr>,
      h\<lparr>arrays := arrays h @ [elems h (seriesCollection csi)]\<rparr>)"
proof -
  let ?sc = "seriesCollection csi"
  let ?h1 = "h\<lparr>arrays := arrays h @ [replicate (len ?sc) zero_Series]\<rparr>"
  have a: "arr ?sc < length (arrays h)" using assms by (simp add: slice_ok_def)
  have e: "elems ?h1 ?sc = elems h ?sc" using a by (simp add: elems_def nth_append)
  have l: "length (elems h ?sc) = len ?sc" using assms by (rule length_elems)
  show ?thesis
    using e l by (simp add: CopyOfSeriesCollection_def make_slice_def copy_slice_def Let_def)
qed

lemma store_elem_apart:
  assumes "apart A (sl, h)" "len sl' \<le> cap sl" "arr sl' = arr sl" "off sl' = off sl" "cap sl' = cap sl"
  shows "apart A (sl', store_elem h sl i v)"
  using assms by (auto simp: apart_def slice_ok_def store_elem_def)

lemma apply_op_apart:
  assumes "apart A st" "apply_op grow x st = Inr st'"
  shows "apart A st'"
proof (cases st)
  case (Pair sl h)
  show ?thesis
  proof (cases x)
    case (Store i v)
    with assms Pair show ?thesis
      by (auto simp: apart_def slice_ok_def store_elem_def split: if_splits)
  next
    case (Append v)
    show ?thesis
    proof (cases "len sl < cap sl")
      case True
      with assms Pair Append show ?thesis
        by (auto simp: apart_def slice_ok_def store_elem_def)
    next
      case False
      have n: "length A \<le> length (arrays h)"
        using assms(1) Pair by (auto simp: apart_def slice_ok_def)
      have l: "length (elems h sl) = len sl"
        using assms(1) Pair by (auto simp: apart_def intro: length_elems)
      from False assms Pair Append n l show ?thesis
        by (auto simp: apart_def slice_ok_def Let_def)
    qed
  next
    case (Swap i j)
    with assms Pair show ?thesis
      by (auto simp: apart_def slice_ok_def store_elem_def Let_def split: if_splits)
  qed
qed

lemma apply_ops_apart:
  "apart A st \<Longrightarrow> apply_ops grow ops st = Inr st' \<Longrightarrow> apart A st'"
proof (induction ops arbitrary: st)
  case Nil
  then show ?case by simp
next
  case (Cons x xs)
  then obtain st1 where s1: "apply_op grow x st = Inr st1" and r: "apply_ops grow xs st1 = Inr st'"
    by (auto split: sum.splits)
  from Cons.prems(1) s1 have "apart A st1" by (rule apply_op_apart)
  then show ?case using r by (rule Cons.IH)
qed

lemma apart_elems:
  assumes "apart (arrays h) (sl, h')" "arr sc < length (arrays h)"
  shows "elems h' sc = elems h sc"
proof -
  have "arrays h' ! arr sc = take (length (arrays h)) (arrays h') ! arr sc"
    using assms(2) by simp
  also have "\<dots> = arrays h ! arr sc"
    using assms(1) by (simp add: apart_def)
  finally show ?thesis by (simp add: elems_def)
qed

text \<open>
  Claim C7. \<^verbatim>\<open>CopyOfSeriesCollection\<close> returns a slice over a new array, with the
  elements of the index's series collection in their order; and whatever the caller
  then stores into, appends to or swaps within that slice, the index's series
  collection shows the elements it showed before.
\<close>

theorem CopyOfSeriesCollection_independent_copy:
  assumes ok: "slice_ok h (seriesCollection csi)"
    and cp: "CopyOfSeriesCollection h csi = (ret, h1)"
  shows "elems h1 ret = elems h (seriesCollection csi)
       \<and> arr ret = length (arrays h) \<and> arr ret \<noteq> arr (seriesCollection csi)
       \<and> elems h1 (seriesCollection csi) = elems h (seriesCollection csi)
       \<and> (\<forall>grow ops ret' h2. apply_ops grow ops (ret, h1) = Inr (ret', h2) \<longrightarrow>
             elems h2 (seriesCollection csi) = elems h (seriesCollection csi))"
proof -
  let ?sc = "seriesCollection csi"
  have ret: "ret = \<lparr>arr = length (arrays h), off = 0, len = len ?sc, cap = len ?sc\<rparr>"
    and h1: "h1 = h\<lparr>arrays := arrays h @ [elems h ?sc]\<rparr>"
    using cp CopyOfSeriesCollection_result [OF ok] by simp_all
  have a: "arr ?sc < length (arrays h)" using ok by (simp add: slice_ok_def)
  have l: "length (elems h ?sc) = len ?sc" using ok by (rule length_elems)
  have c1: "elems h1 ret = elems h ?sc" using l by (simp add: ret h1 elems_def)
  have ap: "apart (arrays h) (ret, h1)"
    using l by (simp add: apart_def slice_ok_def ret h1)
  have c3: "elems h1 ?sc = elems h ?sc" using ap a by (rule apart_elems)
  have c4: "elems h2 ?sc = elems h ?sc" if "apply_ops grow ops (ret, h1) = Inr (ret', h2)"
    for grow ops ret' h2
  proof -
    have "apart (arrays h) (ret', h2)" using ap that by (rule apply_ops_apart)
    then show ?thesis using a by (rule apart_elems)
  qed
  show ?thesis using c1 c3 c4 a by (auto simp: ret)
qed

theorem CopyOfSeriesCollection_independent_copy_witness:
  "slice_ok \<lparr>arrays = [[row_cpu, row_mem]], cells = [row_mem, row_mem]\<rparr>
      \<lparr>arr = 0, off = 0, len = 2, cap = 2\<rparr>
   \<and> CopyOfSeriesCollection \<lparr>arrays = [[row_cpu, row_mem]], cells = [row_mem, row_mem]\<rparr>
        \<lparr>timeIntervalMapping = [Interval row_cpu \<mapsto> {0}, Interval row_mem \<mapsto> {0}],
         tagMapping = [''hostname=host_0'' \<mapsto> {1}, ''hostname=host_1'' \<mapsto> {1}],
         seriesCollection = \<lparr>arr = 0, off = 0, len = 2, cap = 2\<rparr>,
         seriesIds = [Id' row_cpu, Id' row_mem]\<rparr>
      = (\<lparr>arr = 1, off = 0, len = 2, cap = 2\<rparr>,
         \<lparr>arrays = [[row_cpu, row_mem], [row_cpu, row_mem]], cells = [row_mem, row_mem]\<rparr>)
   \<and> apply_ops (\<lambda>c. 2 * c) [Store 0 row_mem, Append row_cpu, Swap 1 2]
        (\<lparr>arr = 1, off = 0, len = 2, cap = 2\<rparr>,
         \<lparr>arrays = [[row_cpu, row_mem], [row_cpu, row_mem]], cells = [row_mem, row_mem]\<rparr>)
      = Inr (\<lparr>arr = 2, off = 0, len = 3, cap = 4\<rparr>,
             \<lparr>arrays = [[row_cpu, row_mem], [row_mem, row_mem],
                         [row_mem, row_cpu, row_mem, zero_Series]],
              cells = [row_mem, row_mem]\<rparr>)
   \<and> elems \<lparr>arrays = [[row_cpu, row_mem], [row_mem, row_mem],
                         [row_mem, row_cpu, row_mem, zero_Series]],
              cells = [row_mem, row_mem]\<rparr> \<lparr>arr = 0, off = 0, len = 2, cap = 2\<rparr>
      = [row_cpu, row_mem]"
proof -
  let ?h = "\<lparr>arrays = [[row_cpu, row_mem]], cells = [row_mem, row_mem]\<rparr>"
  let ?sc = "\<lparr>arr = 0, off = 0, len = 2, cap = 2\<rparr>"
  let ?csi = "\<lparr>timeIntervalMapping = [Interval row_cpu \<mapsto> {0}, Interval row_mem \<mapsto> {0}],
         tagMapping = [''hostname=host_0'' \<mapsto> {1}, ''hostname=host_1'' \<mapsto> {1}],
         seriesCollection = ?sc, seriesIds = [Id' row_cpu, Id' row_mem]\<rparr>"
  let ?ret = "\<lparr>arr = 1, off = 0, len = 2, cap = 2\<rparr>"
  let ?h1 = "\<lparr>arrays = [[row_cpu, row_mem], [row_cpu, row_mem]], cells = [row_mem, row_mem]\<rparr>"
  let ?ret' = "\<lparr>arr = 2, off = 0, len = 3, cap = 4\<rparr>"
  let ?h2 = "\<lparr>arrays = [[row_cpu, row_mem], [row_mem, row_mem],
                         [row_mem, row_cpu, row_mem, zero_Series]],
              cells = [row_mem, row_mem]\<rparr>"
  have ok': "slice_ok ?h ?sc" by (simp add: slice_ok_def)
  then have ok: "slice_ok ?h (seriesCollection ?csi)" by simp
  have cp: "CopyOfSeriesCollection ?h ?csi = (?ret, ?h1)"
    by (simp add: CopyOfSeriesCollection_def make_slice_def copy_slice_def elems_def Let_def)
  have run: "apply_ops (\<lambda>c. 2 * c) [Store 0 row_mem, Append row_cpu, Swap 1 2] (?ret, ?h1)
      = Inr (?ret', ?h2)"
    by (simp add: store_elem_def elems_def Let_def numeral_2_eq_2)
  have e: "elems ?h ?sc = [row_cpu, row_mem]" by (simp add: elems_def)
  have "elems ?h2 (seriesCollection ?csi) = elems ?h (seriesCollection ?csi)"
    using CopyOfSeriesCollection_independent_copy [OF ok cp] run by blast
  then have f: "elems ?h2 ?sc = [row_cpu, row_mem]" using e by simp
  show ?thesis by (rule conjI [OF ok' conjI [OF cp conjI [OF run f]]])
qed

section \<open>Parsing a series id\<close>

lemma Split_from_not_Nil: "Split_from cur s sep \<noteq> []"
  by (induction s arbitrary: cur) auto

lemma length_Split_from: "length (Split_from cur s sep) = Suc (count_list s sep)"
  by (induction s arbitrary: cur) auto

lemma Split_from_no_sep: "sep \<notin> set a \<Longrightarrow> Split_from cur a sep = [cur @ a]"
  by (induction a arbitrary: cur) auto

lemma Split_from_append:
  "sep \<notin> set a \<Longrightarrow> Split_from cur (a @ sep # b) sep = (cur @ a) # Split_from [] b sep"
  by (induction a arbitrary: cur) auto

lemma Split_not_Nil: "Split s sep \<noteq> []"
  by (simp add: Split_def Split_from_not_Nil)

lemma length_Split: "length (Split s sep) = Suc (count_list s sep)"
  by (simp add: Split_def length_Split_from)

lemma Split_no_sep: "sep \<notin> set a \<Longrightarrow> Split a sep = [a]"
  by (simp add: Split_def Split_from_no_sep)

lemma Split_append: "sep \<notin> set a \<Longrightarrow> Split (a @ sep # b) sep = a # Split b sep"
  by (simp add: Split_def Split_from_append)

lemma Split_joined:
  "sep \<notin> set m \<Longrightarrow> \<forall>t \<in> set ts. sep \<notin> set t \<Longrightarrow>
   Split (m @ concat (map ((#) sep) ts)) sep = m # ts"
proof (induction ts arbitrary: m)
  case Nil
  then show ?case by (simp add: Split_no_sep)
next
  case (Cons t ts)
  have "Split (m @ sep # (t @ concat (map ((#) sep) ts))) sep
      = m # Split (t @ concat (map ((#) sep) ts)) sep"
    using Cons.prems(1) by (rule Split_append)
  also have "Split (t @ concat (map ((#) sep) ts)) sep = t # ts"
    using Cons.prems(2) by (intro Cons.IH) auto
  finally show ?case by simp
qed

lemma parse_tags_result:
  "parse_tags ts acc =
     (if distinct ts \<and> set ts \<inter> acc = {} then Inr (acc \<union> set ts) else Inl DuplicateTag)"
  by (induction ts arbitrary: acc) auto


lemma Split_identifier:
  assumes "CHR ''#'' \<notin> set mt" "CHR ''#'' \<notin> set f" "CHR ''#'' \<notin> set d"
  shows "Split (mt @ CHR ''#'' # f @ CHR ''#'' # d) CHR ''#'' = [mt, f, d]"
proof -
  have "Split (mt @ CHR ''#'' # (f @ CHR ''#'' # d)) CHR ''#''
      = mt # Split (f @ CHR ''#'' # d) CHR ''#''"
    using assms(1) by (rule Split_append)
  also have "Split (f @ CHR ''#'' # d) CHR ''#'' = f # Split d CHR ''#''"
    using assms(2) by (rule Split_append)
  also have "Split d CHR ''#'' = [d]"
    using assms(3) by (rule Split_no_sep)
  finally show ?thesis by simp
qed

lemma time_Parse_date_examples:
  "time_Parse_date ''2016-01-01'' = Some 1451606400000000000"
  "time_Parse_date ''2016-13-01'' = None"
  "time_Parse_date ''yesterday'' = None"
  by (simp_all add: time_Parse_date_def isDigit_def digit_def daysIn_def isLeap_def
      days_from_civil_def)

text \<open>
  Claim C2. For an id of the shape \<^verbatim>\<open>m,t1,...,tn#f#date\<close>, where neither \<^verbatim>\<open>m\<close> nor a
  tag contains a comma or a hash, the tags are pairwise distinct, \<^verbatim>\<open>f\<close> and the date
  contain no hash and the library parses the date to the instant \<open>start\<close>,
  \<^verbatim>\<open>NewSeries\<close> returns the row with measurement \<^verbatim>\<open>m\<close>, the tags as a set, field
  \<^verbatim>\<open>f\<close> and the interval from \<open>start\<close> to \<open>start + BucketDuration\<close>.
\<close>

theorem NewSeries_well_formed_identifier:
  assumes tokens: "\<forall>x \<in> set (m # ts). CHR '','' \<notin> set x \<and> CHR ''#'' \<notin> set x"
    and tags: "distinct ts"
    and field: "CHR ''#'' \<notin> set f"
    and date: "CHR ''#'' \<notin> set d" "time_Parse d = Some start"
  shows "NewSeries time_Parse BucketDuration table
           (m @ concat (map ((#) CHR '','') ts) @ CHR ''#'' # f @ CHR ''#'' # d)
         = Inr \<lparr>Table = table,
                Id' = m @ concat (map ((#) CHR '','') ts) @ CHR ''#'' # f @ CHR ''#'' # d,
                Measurement = m, Tags = set ts, Field = f,
                Interval = \<lparr>Start = start, End = start + BucketDuration\<rparr>\<rparr>"
proof -
  let ?mt = "m @ concat (map ((#) CHR '','') ts)"
  have hash: "CHR ''#'' \<notin> set ?mt"
    using tokens by auto
  have secs: "Split (?mt @ CHR ''#'' # f @ CHR ''#'' # d) CHR ''#'' = [?mt, f, d]"
    using hash field date(1) by (rule Split_identifier)
  have toks: "Split ?mt CHR '','' = m # ts"
    using tokens by (intro Split_joined) auto
  have tagset: "parse_tags ts {} = Inr (set ts)"
    using tags by (simp add: parse_tags_result)
  show ?thesis
    using secs toks tagset date(2)
    by (simp add: NewSeries_def parse_def NewTimeInterval_def)
qed

theorem NewSeries_well_formed_identifier_witness:
  "NewSeries time_Parse_date one_day ''series_bigint''
       ''cpu,hostname=host_0,region=eu-central-1#usage_idle#2016-01-01''
     = Inr \<lparr>Table = ''series_bigint'',
            Id' = ''cpu,hostname=host_0,region=eu-central-1#usage_idle#2016-01-01'',
            Measurement = ''cpu'', Tags = {''hostname=host_0'', ''region=eu-central-1''},
            Field = ''usage_idle'',
            Interval = \<lparr>Start = 1451606400000000000, End = 1451692800000000000\<rparr>\<rparr>"
proof -
  have d: "time_Parse_date ''2016-01-01'' = Some 1451606400000000000"
    by (simp add: time_Parse_date_def isDigit_def digit_def daysIn_def isLeap_def
        days_from_civil_def)
  have "\<forall>x \<in> set [''cpu'', ''hostname=host_0'', ''region=eu-central-1''].
          CHR '','' \<notin> set x \<and> CHR ''#'' \<notin> set x"
    by simp
  moreover have "distinct [''hostname=host_0'', ''region=eu-central-1'']" by simp
  moreover have "CHR ''#'' \<notin> set ''usage_idle''" by simp
  moreover have "CHR ''#'' \<notin> set ''2016-01-01''" by simp
  ultimately show ?thesis
    using NewSeries_well_formed_identifier
      [of "''cpu''" "[''hostname=host_0'', ''region=eu-central-1'']" "''usage_idle''"
        "''2016-01-01''" time_Parse_date "1451606400000000000" one_day "''series_bigint''"] d
    by (simp add: one_day_def insert_commute)
qed

text \<open>
  Claim C3. \<^verbatim>\<open>NewSeries\<close> is fatal exactly when the id does not split at \<^verbatim>\<open>#\<close> into
  three sections, or it does and a tag occurs twice among the tokens after the
  measurement, or it does and the library does not parse the third section as a
  date; on every other id it returns a row.
\<close>

theorem NewSeries_fatal_iff:
  "(\<exists>e. NewSeries time_Parse BucketDuration table i = Inl e) \<longleftrightarrow>
     (length (Split i CHR ''#'') \<noteq> 3
      \<or> (length (Split i CHR ''#'') = 3 \<and>
          (\<not> distinct (tl (Split (Split i CHR ''#'' ! 0) CHR '',''))
           \<or> time_Parse (Split i CHR ''#'' ! 2) = None)))"
  by (auto simp: NewSeries_def parse_def Let_def parse_tags_result split: option.splits)

theorem NewSeries_fatal_iff_witness:
  "(\<exists>e. NewSeries time_Parse_date one_day ''series_bigint'' ''cpu,hostname=a#usage_idle'' = Inl e)
   \<and> (\<exists>e. NewSeries time_Parse_date one_day ''series_bigint''
            ''cpu,hostname=a#usage#idle#2016-01-01'' = Inl e)
   \<and> (\<exists>e. NewSeries time_Parse_date one_day ''series_bigint''
            ''cpu,hostname=a,hostname=a#f#2016-01-01'' = Inl e)
   \<and> (\<exists>e. NewSeries time_Parse_date one_day ''series_bigint''
            ''cpu,hostname=a#f#2016-13-01'' = Inl e)
   \<and> \<not> (\<exists>e. NewSeries time_Parse_date one_day ''series_bigint''
            ''cpu,hostname=a,hostname=b#f#2016-01-01'' = Inl e)"
proof -
  note ex = time_Parse_date_examples
  have "\<exists>e. NewSeries time_Parse_date one_day ''series_bigint'' ''cpu,hostname=a#usage_idle'' = Inl e"
    using NewSeries_fatal_iff [of time_Parse_date one_day "''series_bigint''" "''cpu,hostname=a#usage_idle''"]
    by (simp add: Split_def)
  moreover have "\<exists>e. NewSeries time_Parse_date one_day ''series_bigint''
            ''cpu,hostname=a#usage#idle#2016-01-01'' = Inl e"
    using NewSeries_fatal_iff [of time_Parse_date one_day "''series_bigint''"
        "''cpu,hostname=a#usage#idle#2016-01-01''"]
    by (simp add: Split_def)
  moreover have "\<exists>e. NewSeries time_Parse_date one_day ''series_bigint''
            ''cpu,hostname=a,hostname=a#f#2016-01-01'' = Inl e"
    using NewSeries_fatal_iff [of time_Parse_date one_day "''series_bigint''"
        "''cpu,hostname=a,hostname=a#f#2016-01-01''"]
    by (simp add: Split_def)
  moreover have "\<exists>e. NewSeries time_Parse_date one_day ''series_bigint''
            ''cpu,hostname=a#f#2016-13-01'' = Inl e"
    using NewSeries_fatal_iff [of time_Parse_date one_day "''series_bigint''"
        "''cpu,hostname=a#f#2016-13-01''"] ex
    by (simp add: Split_def)
  moreover have "\<not> (\<exists>e. NewSeries time_Parse_date one_day ''series_bigint''
            ''cpu,hostname=a,hostname=b#f#2016-01-01'' = Inl e)"
    using NewSeries_fatal_iff [of time_Parse_date one_day "''series_bigint''"
        "''cpu,hostname=a,hostname=b#f#2016-01-01''"] ex
    by (simp add: Split_def)
  ultimately show ?thesis by blast
qed

end
